theory Spec2Isabelle
  imports Complex_Main "HOL-Library.Word"
begin

section \<open>The report metric extractor (dashboard.py, Tab 4)\<close>

text \<open>
  The extractor is the block of \<^verbatim>\<open>dashboard.py\<close> under the comment
  \<^verbatim>\<open># Extract metrics safely\<close>:
  \<^verbatim>\<open>
    if rain_report:
        corr_match = re.search(r'Correlation coefficient: ([\d.-]+)', rain_report)
        if corr_match:
            rain_metrics['correlation'] = float(corr_match.group(1))
        elastic_match = re.search(r'Elasticity: ([\d.-]+)%', rain_report)
        if elastic_match:
            rain_metrics['elasticity'] = float(elastic_match.group(1))
        month_match = re.search(r'Wettest month: (\w+)', rain_report)
        if month_match:
            rain_metrics['wettest_month'] = month_match.group(1)
  \<close>
  A report text is a \<^typ>\<open>string\<close>: its characters are the code points 0 to 255, which is
  what the latin-1 fallback of the reader produces and what covers every label and digit
  the patterns name.
\<close>

subsection \<open>The regular expressions\<close>

text \<open>
  The three patterns use literal characters and one capturing group holding a greedy
  \<^verbatim>\<open>+\<close> over a character class. \<open>Lit c\<close> is a literal, \<open>Group_plus cls\<close> is
  \<^verbatim>\<open>(cls+)\<close>.
\<close>

datatype item = Lit char | Group_plus "char \<Rightarrow> bool"

text \<open>\<^verbatim>\<open>\d\<close> on the code points 0 to 255 is the ten ASCII digits.\<close>

definition is_digit :: "char \<Rightarrow> bool" where
  "is_digit c = (48 \<le> (of_char c :: nat) \<and> (of_char c :: nat) \<le> 57)"

text \<open>\<^verbatim>\<open>[\d.-]\<close>: a digit, a dot or a minus sign.\<close>

definition num_class :: "char \<Rightarrow> bool" where
  "num_class c = (is_digit c \<or> c = CHR ''.'' \<or> c = CHR ''-'')"

text \<open>
  \<^verbatim>\<open>\w\<close> on a Python 3 \<^verbatim>\<open>str\<close> pattern: the underscore and every character that is
  alphanumeric in Unicode. Below 256 these are the ASCII letters and digits, the ordinal
  indicators, the micro sign, the superscripts one to three, the three vulgar fractions,
  and the accented letters (all of C0 to FF except the multiplication and the division
  sign).
\<close>

definition word_class :: "char \<Rightarrow> bool" where
  "word_class c =
     (let n = (of_char c :: nat) in
      (48 \<le> n \<and> n \<le> 57) \<or> (65 \<le> n \<and> n \<le> 90) \<or> n = 95 \<or> (97 \<le> n \<and> n \<le> 122) \<or>
      n = 170 \<or> n = 178 \<or> n = 179 \<or> n = 181 \<or> n = 185 \<or> n = 186 \<or>
      n = 188 \<or> n = 189 \<or> n = 190 \<or>
      (192 \<le> n \<and> n \<le> 214) \<or> (216 \<le> n \<and> n \<le> 246) \<or> 248 \<le> n)"

definition corr_pattern :: "item list" where
  "corr_pattern = map Lit ''Correlation coefficient: '' @ [Group_plus num_class]"

definition elastic_pattern :: "item list" where
  "elastic_pattern = map Lit ''Elasticity: '' @ [Group_plus num_class, Lit CHR ''%'']"

definition month_pattern :: "item list" where
  "month_pattern = map Lit ''Wettest month: '' @ [Group_plus word_class]"

subsection \<open>Backtracking matching and \<^verbatim>\<open>re.search\<close>\<close>

text \<open>
  A greedy \<^verbatim>\<open>+\<close> first takes the longest run of class characters and gives characters
  back one at a time, down to one, until the rest of the pattern matches.
  \<open>try_lengths f n\<close> tries the lengths \<open>n, n - 1, ..., 1\<close> in that order.
\<close>

primrec try_lengths :: "(nat \<Rightarrow> 'a option) \<Rightarrow> nat \<Rightarrow> 'a option" where
  "try_lengths f 0 = None"
| "try_lengths f (Suc n) = (case f (Suc n) of Some r \<Rightarrow> Some r | None \<Rightarrow> try_lengths f n)"

text \<open>
  \<open>match_here p s\<close> matches the pattern at the start of \<open>s\<close>; on success it returns the
  captured groups in order, \<open>None\<close> when no way of matching exists.
\<close>

primrec match_here :: "item list \<Rightarrow> string \<Rightarrow> string list option" where
  "match_here [] s = Some []"
| "match_here (i # p) s =
     (case i of
        Lit c \<Rightarrow> (case s of [] \<Rightarrow> None
                  | x # xs \<Rightarrow> if x = c then match_here p xs else None)
      | Group_plus cls \<Rightarrow>
          try_lengths
            (\<lambda>n. map_option (\<lambda>gs. take n s # gs) (match_here p (drop n s)))
            (length (takeWhile cls s)))"

text \<open>
  \<^verbatim>\<open>re.search\<close> tries the start positions from left to right, the end of the text
  included, and returns the first match.
\<close>

fun search :: "item list \<Rightarrow> string \<Rightarrow> string list option" where
  "search p [] = match_here p []"
| "search p (c # cs) =
     (case match_here p (c # cs) of Some gs \<Rightarrow> Some gs | None \<Rightarrow> search p cs)"

text \<open>\<^verbatim>\<open>m.group(1)\<close> of a match of a pattern with one group.\<close>

definition group1 :: "string list \<Rightarrow> string" where
  "group1 gs = (case gs of [] \<Rightarrow> [] | g # _ \<Rightarrow> g)"

subsection \<open>\<^verbatim>\<open>float\<close> on a captured group\<close>

text \<open>
  A group captured by \<^verbatim>\<open>[\d.-]+\<close> holds digits, dots and minus signs only. On such a
  string \<^verbatim>\<open>float\<close> accepts an optional leading minus sign followed by digits, digits
  with a dot and optional digits, or a dot with digits; anything else raises
  \<^verbatim>\<open>ValueError\<close> (the first of the exceptions of the script; the others are raised by
  reading files, below). The result is the binary64 number nearest to the decimal read; the
  model keeps the decimal itself as a rational, as a Python literal such as
  \<^verbatim>\<open>0.041\<close> denotes the float nearest to 41/1000 in the same way.
\<close>

datatype error = ValueError | UnicodeDecodeError | FileNotFoundError | OSError

definition digit_val :: "char \<Rightarrow> nat" where
  "digit_val c = (of_char c :: nat) - 48"

definition digits_val :: "string \<Rightarrow> nat" where
  "digits_val ds = foldl (\<lambda>acc c. 10 * acc + digit_val c) 0 ds"

definition unsigned_float :: "string \<Rightarrow> error + rat" where
  "unsigned_float s =
     (let ip = takeWhile is_digit s; rest = dropWhile is_digit s in
      case rest of
        [] \<Rightarrow> if ip = [] then Inl ValueError else Inr (of_nat (digits_val ip))
      | r # fp \<Rightarrow>
          if r = CHR ''.'' \<and> list_all is_digit fp \<and> (ip \<noteq> [] \<or> fp \<noteq> [])
          then Inr (of_nat (digits_val ip) + of_nat (digits_val fp) / 10 ^ length fp)
          else Inl ValueError)"

definition py_float :: "string \<Rightarrow> error + rat" where
  "py_float s =
     (case s of
        [] \<Rightarrow> Inl ValueError
      | c # cs \<Rightarrow>
          if c = CHR ''-''
          then (case unsigned_float cs of Inl e \<Rightarrow> Inl e | Inr q \<Rightarrow> Inr (- q))
          else unsigned_float s)"

subsection \<open>The extractor\<close>

datatype pyval = Float rat | Str string

type_synonym metrics = "string \<rightharpoonup> pyval"

text \<open>The three steps, each on the dictionary built so far; a raise ends the block.\<close>

definition corr_step :: "string \<Rightarrow> metrics \<Rightarrow> error + metrics" where
  "corr_step rain_report rain_metrics =
     (case search corr_pattern rain_report of
        None \<Rightarrow> Inr rain_metrics
      | Some corr_match \<Rightarrow>
          (case py_float (group1 corr_match) of
             Inl e \<Rightarrow> Inl e
           | Inr v \<Rightarrow> Inr (rain_metrics(''correlation'' \<mapsto> Float v))))"

definition elastic_step :: "string \<Rightarrow> metrics \<Rightarrow> error + metrics" where
  "elastic_step rain_report rain_metrics =
     (case search elastic_pattern rain_report of
        None \<Rightarrow> Inr rain_metrics
      | Some elastic_match \<Rightarrow>
          (case py_float (group1 elastic_match) of
             Inl e \<Rightarrow> Inl e
           | Inr v \<Rightarrow> Inr (rain_metrics(''elasticity'' \<mapsto> Float v))))"

definition month_step :: "string \<Rightarrow> metrics \<Rightarrow> error + metrics" where
  "month_step rain_report rain_metrics =
     (case search month_pattern rain_report of
        None \<Rightarrow> Inr rain_metrics
      | Some month_match \<Rightarrow> Inr (rain_metrics(''wettest_month'' \<mapsto> Str (group1 month_match))))"

definition extract_metrics :: "string \<Rightarrow> error + metrics" where
  "extract_metrics rain_report =
     (if rain_report = [] then Inr Map.empty
      else case corr_step rain_report Map.empty of
             Inl e \<Rightarrow> Inl e
           | Inr m1 \<Rightarrow>
               (case elastic_step rain_report m1 of
                  Inl e \<Rightarrow> Inl e
                | Inr m2 \<Rightarrow> month_step rain_report m2))"

text \<open>
  The display reads the dictionary with hardcoded fallbacks:
  \<^verbatim>\<open>rain_metrics.get('correlation', 0.041)\<close>, \<^verbatim>\<open>rain_metrics.get('elasticity', -0.40)\<close>,
  \<^verbatim>\<open>rain_metrics.get('wettest_month', 'May 2025')\<close>.
\<close>

definition dict_get :: "metrics \<Rightarrow> string \<Rightarrow> pyval \<Rightarrow> pyval" where
  "dict_get d k dflt = (case d k of None \<Rightarrow> dflt | Some v \<Rightarrow> v)"

definition corr_val :: "metrics \<Rightarrow> pyval" where
  "corr_val rain_metrics = dict_get rain_metrics ''correlation'' (Float (41 / 1000))"


definition month_val :: "metrics \<Rightarrow> pyval" where
  "month_val rain_metrics = dict_get rain_metrics ''wettest_month'' (Str ''May 2025'')"

section \<open>Reading files and showing images\<close>

subsection \<open>Decoding file contents\<close>

text \<open>
  \<^verbatim>\<open>open(file_path, 'r', encoding=...)\<close> followed by \<^verbatim>\<open>f.read()\<close> decodes the bytes of
  the file and, in text mode, translates line endings. A file is a list of bytes, a decoded
  text a list of code points.
\<close>

type_synonym byte = "8 word"
type_synonym codepoint = nat
type_synonym path = string

text \<open>
  The strict UTF-8 decoder: one to four bytes per code point, continuation bytes in
  80 to BF, no overlong form, no surrogate, nothing above 10FFFF. \<open>None\<close> is
  \<^verbatim>\<open>UnicodeDecodeError\<close>.
\<close>

definition is_cont :: "byte \<Rightarrow> bool" where
  "is_cont b = (0x80 \<le> unat b \<and> unat b \<le> 0xBF)"

definition cont_bits :: "byte \<Rightarrow> nat" where
  "cont_bits b = unat b - 0x80"

fun utf8_decode :: "byte list \<Rightarrow> codepoint list option" where
  "utf8_decode [] = Some []"
| "utf8_decode (b0 # bs) =
     (if unat b0 < 0x80 then map_option ((#) (unat b0)) (utf8_decode bs)
      else if 0xC2 \<le> unat b0 \<and> unat b0 \<le> 0xDF then
        (case bs of
           b1 # r \<Rightarrow>
             if is_cont b1
             then map_option ((#) ((unat b0 - 0xC0) * 64 + cont_bits b1)) (utf8_decode r)
             else None
         | _ \<Rightarrow> None)
      else if 0xE0 \<le> unat b0 \<and> unat b0 \<le> 0xEF then
        (case bs of
           b1 # b2 # r \<Rightarrow>
             if is_cont b1 \<and> is_cont b2
                \<and> 0x800 \<le> (unat b0 - 0xE0) * 4096 + cont_bits b1 * 64 + cont_bits b2
                \<and> \<not> (0xD800 \<le> (unat b0 - 0xE0) * 4096 + cont_bits b1 * 64 + cont_bits b2
                     \<and> (unat b0 - 0xE0) * 4096 + cont_bits b1 * 64 + cont_bits b2 \<le> 0xDFFF)
             then map_option ((#) ((unat b0 - 0xE0) * 4096 + cont_bits b1 * 64 + cont_bits b2))
                    (utf8_decode r)
             else None
         | _ \<Rightarrow> None)
      else if 0xF0 \<le> unat b0 \<and> unat b0 \<le> 0xF4 then
        (case bs of
           b1 # b2 # b3 # r \<Rightarrow>
             if is_cont b1 \<and> is_cont b2 \<and> is_cont b3
                \<and> 0x10000 \<le> (unat b0 - 0xF0) * 262144 + cont_bits b1 * 4096
                               + cont_bits b2 * 64 + cont_bits b3
                \<and> (unat b0 - 0xF0) * 262144 + cont_bits b1 * 4096
                               + cont_bits b2 * 64 + cont_bits b3 \<le> 0x10FFFF
             then map_option ((#) ((unat b0 - 0xF0) * 262144 + cont_bits b1 * 4096
                               + cont_bits b2 * 64 + cont_bits b3)) (utf8_decode r)
             else None
         | _ \<Rightarrow> None)
      else None)"

text \<open>The UTF-8 encoding of a text; a surrogate or a value above 10FFFF has none.\<close>

definition utf8_encode_cp :: "codepoint \<Rightarrow> byte list option" where
  "utf8_encode_cp c =
     (if c < 0x80 then Some [of_nat c]
      else if c < 0x800 then Some [of_nat (0xC0 + c div 64), of_nat (0x80 + c mod 64)]
      else if c < 0x10000 then
        (if 0xD800 \<le> c \<and> c \<le> 0xDFFF then None
         else Some [of_nat (0xE0 + c div 4096), of_nat (0x80 + c div 64 mod 64),
                    of_nat (0x80 + c mod 64)])
      else if c \<le> 0x10FFFF then
        Some [of_nat (0xF0 + c div 262144), of_nat (0x80 + c div 4096 mod 64),
              of_nat (0x80 + c div 64 mod 64), of_nat (0x80 + c mod 64)]
      else None)"

fun utf8_encode :: "codepoint list \<Rightarrow> byte list option" where
  "utf8_encode [] = Some []"
| "utf8_encode (c # cs) =
     (case utf8_encode_cp c of
        None \<Rightarrow> None
      | Some bs \<Rightarrow> map_option ((@) bs) (utf8_encode cs))"

text \<open>latin-1 maps every byte to the code point of the same value.\<close>

definition latin1_decode :: "byte list \<Rightarrow> codepoint list" where
  "latin1_decode bs = map unat bs"

text \<open>
  Text mode with the default \<^verbatim>\<open>newline=None\<close>: on reading, \<^verbatim>\<open>\r\n\<close> and a lone
  \<^verbatim>\<open>\r\<close> become \<^verbatim>\<open>\n\<close>.
\<close>

fun universal_newlines :: "codepoint list \<Rightarrow> codepoint list" where
  "universal_newlines [] = []"
| "universal_newlines [c] = [if c = 13 then 10 else c]"
| "universal_newlines (c # d # r) =
     (if c = 13 \<and> d = 10 then 10 # universal_newlines r
      else if c = 13 then 10 # universal_newlines (d # r)
      else c # universal_newlines (d # r))"

subsection \<open>The file system, the page and the image cache\<close>

text \<open>
  What is at a path: nothing, a file that can be opened for reading, or something whose
  opening raises \<^verbatim>\<open>OSError\<close> (a directory, a file without read permission).
\<close>

datatype node = File "byte list" | Unreadable

datatype encoding = UTF8 | Latin1

definition decode :: "encoding \<Rightarrow> byte list \<Rightarrow> codepoint list option" where
  "decode enc bs = (case enc of UTF8 \<Rightarrow> utf8_decode bs | Latin1 \<Rightarrow> Some (latin1_decode bs))"

definition read_text :: "(path \<rightharpoonup> node) \<Rightarrow> path \<Rightarrow> encoding \<Rightarrow> error + codepoint list" where
  "read_text fs file_path enc =
     (case fs file_path of
        None \<Rightarrow> Inl FileNotFoundError
      | Some Unreadable \<Rightarrow> Inl OSError
      | Some (File bs) \<Rightarrow>
          (case decode enc bs of
             None \<Rightarrow> Inl UnicodeDecodeError
           | Some t \<Rightarrow> Inr (universal_newlines t)))"

text \<open>
  An image object of PIL, the notices and elements the script writes to the page, and an
  entry of the cache that \<^verbatim>\<open>@st.cache_data\<close> keeps for \<^verbatim>\<open>load_image\<close>: the value
  returned, together with the warning written while computing it, which a cache hit writes
  again.
\<close>

datatype image = PIL_image "byte list"

datatype message =
    Image_not_found path
  | Error_loading_image path string
  | Could_not_read_file path error
  | Could_not_load string

datatype event =
    Markdown_title string
  | Markdown_description string
  | St_warning message
  | St_error message
  | St_image image

datatype cached = Cached_image image | Cached_failure message

record world =
  files :: "path \<rightharpoonup> node"
  ui :: "event list"
  image_cache :: "path \<rightharpoonup> cached"

definition emit :: "event \<Rightarrow> world \<Rightarrow> world" where
  "emit e w = w\<lparr>ui := ui w @ [e]\<rparr>"

text \<open>
  \<^verbatim>\<open>
  def safe_read_text(file_path):
      try:
          with open(file_path, 'r', encoding='utf-8') as f:
              return f.read()
      except UnicodeDecodeError:
          try:
              with open(file_path, 'r', encoding='latin-1') as f:
                  return f.read()
          except Exception as e:
              st.warning(f"Could not read file {file_path}: {e}")
              return ""
  \<close>
\<close>

definition safe_read_text :: "world \<Rightarrow> path \<Rightarrow> (error + codepoint list) \<times> world" where
  "safe_read_text w file_path =
     (case read_text (files w) file_path UTF8 of
        Inr t \<Rightarrow> (Inr t, w)
      | Inl e \<Rightarrow>
          if e = UnicodeDecodeError
          then (case read_text (files w) file_path Latin1 of
                  Inr t \<Rightarrow> (Inr t, w)
                | Inl e' \<Rightarrow> (Inr [], emit (St_warning (Could_not_read_file file_path e')) w))
          else (Inl e, w))"

text \<open>
  \<^verbatim>\<open>
  @st.cache_data
  def load_image(image_path):
      try:
          if image_path.exists():
              return Image.open(image_path)
          else:
              st.warning(f"Image not found: {image_path}")
              return None
      except Exception as e:
          st.warning(f"Error loading image {image_path}: {str(e)}")
          return None
  \<close>
  \<open>pil_open\<close> stands for \<^verbatim>\<open>Image.open\<close> on the bytes of a file: an image, or the message
  of the exception it raises. \<open>load_image_body\<close> is the function without the decorator,
  \<open>load_image\<close> the cached one, keyed by the path.
\<close>

definition load_image_body ::
  "(byte list \<Rightarrow> string + image) \<Rightarrow> (path \<rightharpoonup> node) \<Rightarrow> path \<Rightarrow> cached" where
  "load_image_body pil_open fs image_path =
     (case fs image_path of
        None \<Rightarrow> Cached_failure (Image_not_found image_path)
      | Some Unreadable \<Rightarrow> Cached_failure (Error_loading_image image_path ''OSError'')
      | Some (File bs) \<Rightarrow>
          (case pil_open bs of
             Inl msg \<Rightarrow> Cached_failure (Error_loading_image image_path msg)
           | Inr img \<Rightarrow> Cached_image img))"

definition replay :: "cached \<Rightarrow> world \<Rightarrow> image option \<times> world" where
  "replay c w =
     (case c of
        Cached_image img \<Rightarrow> (Some img, w)
      | Cached_failure m \<Rightarrow> (None, emit (St_warning m) w))"

definition load_image ::
  "(byte list \<Rightarrow> string + image) \<Rightarrow> world \<Rightarrow> path \<Rightarrow> image option \<times> world" where
  "load_image pil_open w image_path =
     (case image_cache w image_path of
        Some c \<Rightarrow> replay c w
      | None \<Rightarrow>
          (let c = load_image_body pil_open (files w) image_path
           in replay c (w\<lparr>image_cache := (image_cache w)(image_path \<mapsto> c)\<rparr>)))"

text \<open>
  \<^verbatim>\<open>
  def display_plot(image_path, title, description=""):
      with st.container():
          st.markdown(f'<h3 class="tab-header">{title}</h3>', unsafe_allow_html=True)
          if description:
              st.markdown(f'<p ...>{description}</p>', unsafe_allow_html=True)
          with st.spinner(f"Loading {title}..."):
              img = load_image(image_path)
              if img:
                  st.image(img, use_container_width=True)
                  return True
              else:
                  st.error(f"Could not load: {title}")
                  return False
  \<close>
  The container and the spinner leave no element of their own on the page; the two
  \<^verbatim>\<open>st.markdown\<close> calls are kept as the title and the description they print.
\<close>

definition display_plot ::
  "(byte list \<Rightarrow> string + image) \<Rightarrow> world \<Rightarrow> path \<Rightarrow> string \<Rightarrow> string \<Rightarrow> bool \<times> world" where
  "display_plot pil_open w image_path title description =
     (let w1 = emit (Markdown_title title) w;
          w2 = (if description \<noteq> [] then emit (Markdown_description description) w1 else w1)
      in case load_image pil_open w2 image_path of
           (Some img, w3) \<Rightarrow> (True, emit (St_image img) w3)
         | (None, w3) \<Rightarrow> (False, emit (St_error (Could_not_load title)) w3))"

text \<open>The warnings and the error notices among the elements written to the page.\<close>

fun warnings :: "event list \<Rightarrow> message list" where
  "warnings [] = []"
| "warnings (St_warning m # es) = m # warnings es"
| "warnings (e # es) = warnings es"

fun errors :: "event list \<Rightarrow> message list" where
  "errors [] = []"
| "errors (St_error m # es) = m # errors es"
| "errors (e # es) = errors es"

text \<open>The cache holds no image for the path: no entry, or the entry of a failed load.\<close>

definition no_cached_image :: "world \<Rightarrow> path \<Rightarrow> bool" where
  "no_cached_image w image_path =
     (case image_cache w image_path of Some (Cached_image img) \<Rightarrow> False | _ \<Rightarrow> True)"

text \<open>An \<^verbatim>\<open>Image.open\<close> that recognises no file, for concrete runs on missing paths.\<close>

definition unrecognised :: "byte list \<Rightarrow> string + image" where
  "unrecognised bs = Inl ''cannot identify image file''"

subsection \<open>The extractor as a step of the script\<close>

text \<open>
  The state of the script at the extractor: the world, the variable \<^verbatim>\<open>rain_report\<close> it
  reads and the dictionary \<^verbatim>\<open>rain_metrics\<close> it fills (set to \<^verbatim>\<open>{}\<close> before the report
  is read).
\<close>

record session = world +
  rain_report :: string
  rain_metrics :: metrics


section \<open>Notions used to state properties\<close>

subsection \<open>Lines and labels\<close>

text \<open>
  The line terminator, patterns that cannot match across it, and Python's
  \<^verbatim>\<open>str.startswith\<close> and substring test \<^verbatim>\<open>l in t\<close>.
\<close>

definition newline :: char where "newline = CHR 0x0A"



fun starts_with :: "string \<Rightarrow> string \<Rightarrow> bool" where
  "starts_with [] s = True"
| "starts_with (c # l) [] = False"
| "starts_with (c # l) (x # s) = (x = c \<and> starts_with l s)"



section \<open>Properties of matching and searching\<close>

lemma try_lengths_None_iff:
  "try_lengths f n = None \<longleftrightarrow> (\<forall>k. 1 \<le> k \<and> k \<le> n \<longrightarrow> f k = None)"
proof (induction n)
  case 0
  show ?case by simp
next
  case (Suc n)
  show ?case
  proof (cases "f (Suc n)")
    case None
    have "(\<forall>k. 1 \<le> k \<and> k \<le> Suc n \<longrightarrow> f k = None) \<longleftrightarrow> (\<forall>k. 1 \<le> k \<and> k \<le> n \<longrightarrow> f k = None)"
      using None by (auto simp: le_Suc_eq)
    with None Suc show ?thesis by simp
  next
    case (Some r)
    then show ?thesis by auto
  qed
qed






lemma search_Some_leftmost:
  "search p t = Some gs \<Longrightarrow>
     \<exists>i \<le> length t. match_here p (drop i t) = Some gs \<and> (\<forall>j < i. match_here p (drop j t) = None)"
proof (induction t)
  case Nil
  then show ?case by simp
next
  case (Cons c cs)
  show ?case
  proof (cases "match_here p (c # cs)")
    case (Some r)
    with Cons.prems have "match_here p (drop 0 (c # cs)) = Some gs" by simp
    then show ?thesis by blast
  next
    case None
    with Cons.prems have "search p cs = Some gs" by simp
    from Cons.IH [OF this] obtain i where i: "i \<le> length cs"
      "match_here p (drop i cs) = Some gs" "\<forall>j < i. match_here p (drop j cs) = None" by blast
    have "\<forall>j < Suc i. match_here p (drop j (c # cs)) = None"
    proof (intro allI impI)
      fix j assume "j < Suc i"
      then show "match_here p (drop j (c # cs)) = None" using None i(3) by (cases j) auto
    qed
    moreover have "Suc i \<le> length (c # cs)" using i(1) by simp
    moreover have "match_here p (drop (Suc i) (c # cs)) = Some gs" using i(2) by simp
    ultimately show ?thesis by blast
  qed
qed

lemma match_here_lits:
  "match_here (map Lit l @ q) s
     = (if starts_with l s then match_here q (drop (length l) s) else None)"
proof (induction l arbitrary: s)
  case Nil
  show ?case by simp
next
  case (Cons c l)
  show ?case by (cases s) (auto simp: Cons.IH)
qed



lemma try_lengths_Some:
  "try_lengths f n = Some r \<Longrightarrow> \<exists>k. 1 \<le> k \<and> k \<le> n \<and> f k = Some r"
proof (induction n)
  case 0
  then show ?case by simp
next
  case (Suc n)
  show ?case
  proof (cases "f (Suc n)")
    case None
    with Suc.prems have "try_lengths f n = Some r" by simp
    from Suc.IH [OF this] obtain k where "1 \<le> k" "k \<le> n" "f k = Some r" by blast
    then have "1 \<le> k \<and> k \<le> Suc n \<and> f k = Some r" by simp
    then show ?thesis ..
  next
    case (Some r')
    with Suc.prems have "f (Suc n) = Some r" by simp
    then have "1 \<le> Suc n \<and> Suc n \<le> Suc n \<and> f (Suc n) = Some r" by simp
    then show ?thesis ..
  qed
qed

lemma group_of_match:
  assumes "match_here (Group_plus cls # q) s = Some gs"
  shows "group1 gs \<noteq> [] \<and> list_all cls (group1 gs)"
proof -
  from assms have "try_lengths (\<lambda>n. map_option (\<lambda>gs. take n s # gs) (match_here q (drop n s)))
      (length (takeWhile cls s)) = Some gs" by simp
  from try_lengths_Some [OF this] obtain k where k: "1 \<le> k" "k \<le> length (takeWhile cls s)"
    and m: "map_option (\<lambda>gs. take k s # gs) (match_here q (drop k s)) = Some gs" by blast
  from m obtain gs' where gs: "gs = take k s # gs'" by auto
  have pre: "take k s = take k (takeWhile cls s)"
  proof -
    have "take k s = take k (takeWhile cls s @ dropWhile cls s)" by simp
    also have "\<dots> = take k (takeWhile cls s)" using k(2) by (simp only: take_append) simp
    finally show ?thesis .
  qed
  have "set (take k (takeWhile cls s)) \<subseteq> set (takeWhile cls s)" by (rule set_take_subset)
  then have a: "list_all cls (take k s)"
    unfolding pre by (auto simp: list_all_iff dest: set_takeWhileD)
  have "length (take k s) = k" unfolding pre using k(2) by simp
  with k(1) have b: "take k s \<noteq> []" by auto
  from a b show ?thesis by (simp add: gs group1_def)
qed

lemma captured_group:
  assumes "search (map Lit l @ Group_plus cls # q) t = Some gs"
  shows "group1 gs \<noteq> [] \<and> list_all cls (group1 gs)"
proof -
  from search_Some_leftmost [OF assms] obtain i
    where "match_here (map Lit l @ Group_plus cls # q) (drop i t) = Some gs" by blast
  then have "(if starts_with l (drop i t)
              then match_here (Group_plus cls # q) (drop (length l) (drop i t)) else None)
             = Some gs"
    by (simp only: match_here_lits)
  then have "match_here (Group_plus cls # q) (drop (length l) (drop i t)) = Some gs"
    by (cases "starts_with l (drop i t)") simp_all
  then show ?thesis by (rule group_of_match)
qed

section \<open>Properties of the extractor\<close>

lemmas class_defs = is_digit_def num_class_def word_class_def
lemmas pattern_defs = corr_pattern_def elastic_pattern_def month_pattern_def
lemmas float_defs = py_float_def unsigned_float_def digits_val_def digit_val_def
lemmas step_defs = corr_step_def elastic_step_def month_step_def group1_def



text \<open>What \<^verbatim>\<open>float\<close> is applied to: a non-empty string of digits, dots and minus signs.\<close>

lemma numeric_groups:
  "search corr_pattern t = Some gs \<Longrightarrow> group1 gs \<noteq> [] \<and> list_all num_class (group1 gs)"
  "search elastic_pattern t = Some gs \<Longrightarrow> group1 gs \<noteq> [] \<and> list_all num_class (group1 gs)"
proof -
  assume "search corr_pattern t = Some gs"
  then have "search (map Lit ''Correlation coefficient: '' @ Group_plus num_class # []) t
               = Some gs"
    by (simp only: corr_pattern_def)
  then show "group1 gs \<noteq> [] \<and> list_all num_class (group1 gs)" by (rule captured_group)
next
  assume "search elastic_pattern t = Some gs"
  then have "search (map Lit ''Elasticity: '' @ Group_plus num_class # [Lit CHR ''%'']) t
               = Some gs"
    by (simp only: elastic_pattern_def)
  then show "group1 gs \<noteq> [] \<and> list_all num_class (group1 gs)" by (rule captured_group)
qed









section \<open>Properties of the decoders\<close>

lemma unat_byte_of_nat: "n < 256 \<Longrightarrow> unat (of_nat n :: byte) = n"
  by (simp add: unat_of_nat)

lemma byte_of_unat: "(of_nat (unat b) :: byte) = b"
  by simp

lemma decode_1:
  "unat b0 < 0x80 \<Longrightarrow> utf8_decode (b0 # r) = map_option ((#) (unat b0)) (utf8_decode r)"
  by simp

lemma decode_2:
  "0xC2 \<le> unat b0 \<Longrightarrow> unat b0 \<le> 0xDF \<Longrightarrow> is_cont b1 \<Longrightarrow>
   utf8_decode (b0 # b1 # r)
     = map_option ((#) ((unat b0 - 0xC0) * 64 + cont_bits b1)) (utf8_decode r)"
  by simp

lemma decode_3:
  "0xE0 \<le> unat b0 \<Longrightarrow> unat b0 \<le> 0xEF \<Longrightarrow> is_cont b1 \<Longrightarrow> is_cont b2 \<Longrightarrow>
   c = (unat b0 - 0xE0) * 4096 + cont_bits b1 * 64 + cont_bits b2 \<Longrightarrow>
   0x800 \<le> c \<Longrightarrow> \<not> (0xD800 \<le> c \<and> c \<le> 0xDFFF) \<Longrightarrow>
   utf8_decode (b0 # b1 # b2 # r) = map_option ((#) c) (utf8_decode r)"
  by simp

lemma decode_4:
  "0xF0 \<le> unat b0 \<Longrightarrow> unat b0 \<le> 0xF4 \<Longrightarrow> is_cont b1 \<Longrightarrow> is_cont b2 \<Longrightarrow> is_cont b3 \<Longrightarrow>
   c = (unat b0 - 0xF0) * 262144 + cont_bits b1 * 4096 + cont_bits b2 * 64 + cont_bits b3 \<Longrightarrow>
   0x10000 \<le> c \<Longrightarrow> c \<le> 0x10FFFF \<Longrightarrow>
   utf8_decode (b0 # b1 # b2 # b3 # r) = map_option ((#) c) (utf8_decode r)"
  by simp


lemma split_3: "(c::nat) = c div 4096 * 4096 + c div 64 mod 64 * 64 + c mod 64"
proof -
  have a: "c div 64 div 64 = c div 4096" by (simp add: div_mult2_eq [symmetric])
  have "c = c div 64 * 64 + c mod 64" by simp
  also have "c div 64 = c div 64 div 64 * 64 + c div 64 mod 64" by simp
  finally show ?thesis unfolding a by (simp add: algebra_simps)
qed

lemma split_4:
  "(c::nat) = c div 262144 * 262144 + c div 4096 mod 64 * 4096 + c div 64 mod 64 * 64 + c mod 64"
proof -
  have a: "c div 4096 div 64 = c div 262144" by (simp add: div_mult2_eq [symmetric])
  have "c div 4096 = c div 4096 div 64 * 64 + c div 4096 mod 64" by simp
  then have b: "c div 4096 * 4096 = c div 262144 * 262144 + c div 4096 mod 64 * 4096"
    unfolding a by (simp add: algebra_simps)
  show ?thesis using split_3 [of c] b by simp
qed

lemma decode_encode_cp:
  assumes "utf8_encode_cp c = Some bs"
  shows "utf8_decode (bs @ r) = map_option ((#) c) (utf8_decode r)"
proof -
  define b0 :: byte where "b0 = of_nat c"
  define x0 :: byte where "x0 = of_nat (0xC0 + c div 64)"
  define y0 :: byte where "y0 = of_nat (0xE0 + c div 4096)"
  define z0 :: byte where "z0 = of_nat (0xF0 + c div 262144)"
  define k1 :: byte where "k1 = of_nat (0x80 + c mod 64)"
  define k2 :: byte where "k2 = of_nat (0x80 + c div 64 mod 64)"
  define k3 :: byte where "k3 = of_nat (0x80 + c div 4096 mod 64)"
  have u1: "unat k1 = 0x80 + c mod 64"
    unfolding k1_def by (rule unat_byte_of_nat) simp
  have u2: "unat k2 = 0x80 + c div 64 mod 64"
    unfolding k2_def by (rule unat_byte_of_nat) simp
  have u3: "unat k3 = 0x80 + c div 4096 mod 64"
    unfolding k3_def by (rule unat_byte_of_nat) simp
  have c1: "is_cont k1" and c2: "is_cont k2" and c3: "is_cont k3"
    by (simp_all add: is_cont_def u1 u2 u3)
  consider (a) "c < 0x80" | (b) "0x80 \<le> c" "c < 0x800"
    | (c) "0x800 \<le> c" "c < 0x10000" "\<not> (0xD800 \<le> c \<and> c \<le> 0xDFFF)"
    | (d) "0x10000 \<le> c" "c \<le> 0x10FFFF"
    using assms by (auto simp: utf8_encode_cp_def split: if_splits)
  then show ?thesis
  proof cases
    case a
    have "utf8_encode_cp c = Some [b0]"
      unfolding utf8_encode_cp_def b0_def using a by (simp only: if_True)
    with assms have bs: "bs = [b0]" by simp
    have u: "unat b0 = c" unfolding b0_def using a by (intro unat_byte_of_nat) simp
    have "utf8_decode (b0 # r) = map_option ((#) (unat b0)) (utf8_decode r)"
      by (rule decode_1) (simp add: u a)
    then show ?thesis by (simp only: bs u append_Cons append_Nil)
  next
    case b
    have n: "\<not> c < 0x80" using b by simp
    have "utf8_encode_cp c = Some [x0, k1]"
      unfolding utf8_encode_cp_def x0_def k1_def using b(2) by (simp only: n if_True if_False)
    with assms have bs: "bs = [x0, k1]" by simp
    have d: "c div 64 < 32" and lo: "2 \<le> c div 64" using b by simp_all
    have u0: "unat x0 = 0xC0 + c div 64"
      unfolding x0_def using d by (intro unat_byte_of_nat) simp
    have v: "(unat x0 - 0xC0) * 64 + cont_bits k1 = c"
      by (simp add: u0 u1 cont_bits_def)
    have "utf8_decode (x0 # k1 # r)
        = map_option ((#) ((unat x0 - 0xC0) * 64 + cont_bits k1)) (utf8_decode r)"
      using d lo by (intro decode_2 c1) (simp_all add: u0)
    then show ?thesis by (simp only: bs v append_Cons append_Nil)
  next
    case c
    have n: "\<not> c < 0x80" "\<not> c < 0x800" using c by simp_all
    have "utf8_encode_cp c = Some [y0, k2, k1]"
      unfolding utf8_encode_cp_def y0_def k1_def k2_def using c(2,3)
      by (simp only: n if_True if_False)
    with assms have bs: "bs = [y0, k2, k1]" by simp
    have d: "c div 4096 < 16" using c by simp
    have u0: "unat y0 = 0xE0 + c div 4096"
      unfolding y0_def using d by (intro unat_byte_of_nat) simp
    have v: "c = (unat y0 - 0xE0) * 4096 + cont_bits k2 * 64 + cont_bits k1"
      using split_3 [of c] by (simp add: u0 u1 u2 cont_bits_def)
    have "utf8_decode (y0 # k2 # k1 # r) = map_option ((#) c) (utf8_decode r)"
      using d c by (intro decode_3 c1 c2 v) (simp_all add: u0)
    then show ?thesis by (simp only: bs append_Cons append_Nil)
  next
    case d
    have n: "\<not> c < 0x80" "\<not> c < 0x800" "\<not> c < 0x10000" using d by simp_all
    have "utf8_encode_cp c = Some [z0, k3, k2, k1]"
      unfolding utf8_encode_cp_def z0_def k1_def k2_def k3_def using d(2)
      by (simp only: n if_True if_False)
    with assms have bs: "bs = [z0, k3, k2, k1]" by simp
    have e: "c div 262144 < 5" using d by simp
    have u0: "unat z0 = 0xF0 + c div 262144"
      unfolding z0_def using e by (intro unat_byte_of_nat) simp
    have v: "c = (unat z0 - 0xF0) * 262144 + cont_bits k3 * 4096 + cont_bits k2 * 64
                 + cont_bits k1"
      using split_4 [of c] by (simp add: u0 u1 u2 u3 cont_bits_def)
    have "utf8_decode (z0 # k3 # k2 # k1 # r) = map_option ((#) c) (utf8_decode r)"
      using e d by (intro decode_4 c1 c2 c3 v) (simp_all add: u0)
    then show ?thesis by (simp only: bs append_Cons append_Nil)
  qed
qed

lemma decode_encode:
  "utf8_encode cs = Some bs \<Longrightarrow> utf8_decode bs = Some cs"
proof (induction cs arbitrary: bs)
  case Nil
  then show ?case by simp
next
  case (Cons c cs)
  from Cons.prems obtain b1 b2 where e: "utf8_encode_cp c = Some b1"
    and r: "utf8_encode cs = Some b2" and bs: "bs = b1 @ b2"
    by (auto split: option.splits)
  show ?case
    by (simp only: bs decode_encode_cp [OF e] Cons.IH [OF r] option.map)
qed


lemma div_mod_64:
  "z < 64 \<Longrightarrow> (q * 64 + z) div 64 = (q::nat)" "z < 64 \<Longrightarrow> (q * 64 + z) mod 64 = (z::nat)"
  by simp_all

lemma encode_cp_1: "unat b0 < 0x80 \<Longrightarrow> utf8_encode_cp (unat b0) = Some [b0]"
  by (simp add: utf8_encode_cp_def)

lemma encode_cp_2:
  assumes "0xC2 \<le> unat b0" "unat b0 \<le> 0xDF" "is_cont b1"
  shows "utf8_encode_cp ((unat b0 - 0xC0) * 64 + cont_bits b1) = Some [b0, b1]"
proof -
  define c where "c = (unat b0 - 0xC0) * 64 + cont_bits b1"
  have k: "cont_bits b1 < 64" "0x80 + cont_bits b1 = unat b1"
    using assms(3) by (auto simp add: is_cont_def cont_bits_def)
  have d: "c div 64 = unat b0 - 0xC0" unfolding c_def by (rule div_mod_64(1) [OF k(1)])
  have m: "c mod 64 = cont_bits b1" unfolding c_def by (rule div_mod_64(2) [OF k(1)])
  have r: "\<not> c < 0x80" "c < 0x800" using assms(1,2) k(1) by (simp_all add: c_def)
  have e0: "0xC0 + c div 64 = unat b0" using assms(1) by (simp add: d)
  have e1: "0x80 + c mod 64 = unat b1" using k(2) by (simp add: m)
  have "utf8_encode_cp c = Some [of_nat (0xC0 + c div 64), of_nat (0x80 + c mod 64)]"
    unfolding utf8_encode_cp_def by (simp only: r if_True if_False)
  also have "\<dots> = Some [b0, b1]" by (simp only: e0 e1 byte_of_unat)
  finally show ?thesis unfolding c_def .
qed

lemma encode_cp_3:
  assumes "0xE0 \<le> unat b0" "unat b0 \<le> 0xEF" "is_cont b1" "is_cont b2"
    and c: "c = (unat b0 - 0xE0) * 4096 + cont_bits b1 * 64 + cont_bits b2"
    and lo: "0x800 \<le> c" and ns: "\<not> (0xD800 \<le> c \<and> c \<le> 0xDFFF)"
  shows "utf8_encode_cp c = Some [b0, b1, b2]"
proof -
  have k1: "cont_bits b1 < 64" "0x80 + cont_bits b1 = unat b1"
    using assms(3) by (auto simp add: is_cont_def cont_bits_def)
  have k2: "cont_bits b2 < 64" "0x80 + cont_bits b2 = unat b2"
    using assms(4) by (auto simp add: is_cont_def cont_bits_def)
  have c64: "c = ((unat b0 - 0xE0) * 64 + cont_bits b1) * 64 + cont_bits b2"
    by (simp add: c)
  have m: "c mod 64 = cont_bits b2" unfolding c64 by (rule div_mod_64(2) [OF k2(1)])
  have d64: "c div 64 = (unat b0 - 0xE0) * 64 + cont_bits b1"
    unfolding c64 by (rule div_mod_64(1) [OF k2(1)])
  have m2: "c div 64 mod 64 = cont_bits b1" unfolding d64 by (rule div_mod_64(2) [OF k1(1)])
  have "c div 4096 = c div 64 div 64" by (simp add: div_mult2_eq [symmetric])
  also have "\<dots> = unat b0 - 0xE0" unfolding d64 by (rule div_mod_64(1) [OF k1(1)])
  finally have d: "c div 4096 = unat b0 - 0xE0" .
  have hi: "c < 0x10000" using assms(2) k1(1) k2(1) by (simp add: c)
  have r: "\<not> c < 0x80" "\<not> c < 0x800" using lo by simp_all
  have e0: "0xE0 + c div 4096 = unat b0" using assms(1) by (simp add: d)
  have e1: "0x80 + c div 64 mod 64 = unat b1" using k1(2) by (simp add: m2)
  have e2: "0x80 + c mod 64 = unat b2" using k2(2) by (simp add: m)
  have "utf8_encode_cp c = Some [of_nat (0xE0 + c div 4096), of_nat (0x80 + c div 64 mod 64),
                    of_nat (0x80 + c mod 64)]"
    unfolding utf8_encode_cp_def using hi ns by (simp only: r if_True if_False)
  also have "\<dots> = Some [b0, b1, b2]" by (simp only: e0 e1 e2 byte_of_unat)
  finally show ?thesis .
qed

lemma encode_cp_4:
  assumes "0xF0 \<le> unat b0" "unat b0 \<le> 0xF4" "is_cont b1" "is_cont b2" "is_cont b3"
    and c: "c = (unat b0 - 0xF0) * 262144 + cont_bits b1 * 4096 + cont_bits b2 * 64
                + cont_bits b3"
    and lo: "0x10000 \<le> c" and hi: "c \<le> 0x10FFFF"
  shows "utf8_encode_cp c = Some [b0, b1, b2, b3]"
proof -
  have k1: "cont_bits b1 < 64" "0x80 + cont_bits b1 = unat b1"
    using assms(3) by (auto simp add: is_cont_def cont_bits_def)
  have k2: "cont_bits b2 < 64" "0x80 + cont_bits b2 = unat b2"
    using assms(4) by (auto simp add: is_cont_def cont_bits_def)
  have k3: "cont_bits b3 < 64" "0x80 + cont_bits b3 = unat b3"
    using assms(5) by (auto simp add: is_cont_def cont_bits_def)
  have c64: "c = (((unat b0 - 0xF0) * 64 + cont_bits b1) * 64 + cont_bits b2) * 64
                  + cont_bits b3"
    by (simp add: c)
  have m: "c mod 64 = cont_bits b3" unfolding c64 by (rule div_mod_64(2) [OF k3(1)])
  have d64: "c div 64 = ((unat b0 - 0xF0) * 64 + cont_bits b1) * 64 + cont_bits b2"
    unfolding c64 by (rule div_mod_64(1) [OF k3(1)])
  have m2: "c div 64 mod 64 = cont_bits b2" unfolding d64 by (rule div_mod_64(2) [OF k2(1)])
  have "c div 4096 = c div 64 div 64" by (simp add: div_mult2_eq [symmetric])
  also have "\<dots> = (unat b0 - 0xF0) * 64 + cont_bits b1"
    unfolding d64 by (rule div_mod_64(1) [OF k2(1)])
  finally have d4096: "c div 4096 = (unat b0 - 0xF0) * 64 + cont_bits b1" .
  have m3: "c div 4096 mod 64 = cont_bits b1" unfolding d4096 by (rule div_mod_64(2) [OF k1(1)])
  have "c div 262144 = c div 4096 div 64" by (simp add: div_mult2_eq [symmetric])
  also have "\<dots> = unat b0 - 0xF0" unfolding d4096 by (rule div_mod_64(1) [OF k1(1)])
  finally have d: "c div 262144 = unat b0 - 0xF0" .
  have r: "\<not> c < 0x80" "\<not> c < 0x800" "\<not> c < 0x10000" using lo by simp_all
  have e0: "0xF0 + c div 262144 = unat b0" using assms(1) by (simp add: d)
  have e1: "0x80 + c div 4096 mod 64 = unat b1" using k1(2) by (simp add: m3)
  have e2: "0x80 + c div 64 mod 64 = unat b2" using k2(2) by (simp add: m2)
  have e3: "0x80 + c mod 64 = unat b3" using k3(2) by (simp add: m)
  have "utf8_encode_cp c = Some [of_nat (0xF0 + c div 262144), of_nat (0x80 + c div 4096 mod 64),
              of_nat (0x80 + c div 64 mod 64), of_nat (0x80 + c mod 64)]"
    unfolding utf8_encode_cp_def using hi by (simp only: r if_True if_False)
  also have "\<dots> = Some [b0, b1, b2, b3]" by (simp only: e0 e1 e2 e3 byte_of_unat)
  finally show ?thesis .
qed


lemma encode_step:
  "utf8_encode_cp c = Some b \<Longrightarrow> utf8_encode cs = Some bs \<Longrightarrow> utf8_encode (c # cs) = Some (b @ bs)"
  by simp

lemma encode_decode:
  "utf8_decode bs = Some cs \<Longrightarrow> utf8_encode cs = Some bs"
proof (induction bs arbitrary: cs rule: length_induct)
  case (1 bs)
  note IH = "1.IH" [rule_format]
  show ?case
  proof (cases bs)
    case Nil
    with "1.prems" show ?thesis by simp
  next
    case (Cons b0 t)
    note dec = "1.prems" [unfolded Cons]
    consider (a) "unat b0 < 0x80" | (b) "0xC2 \<le> unat b0" "unat b0 \<le> 0xDF"
      | (c) "0xE0 \<le> unat b0" "unat b0 \<le> 0xEF" | (d) "0xF0 \<le> unat b0" "unat b0 \<le> 0xF4"
      | (e) "\<not> unat b0 < 0x80" "\<not> (0xC2 \<le> unat b0 \<and> unat b0 \<le> 0xDF)"
            "\<not> (0xE0 \<le> unat b0 \<and> unat b0 \<le> 0xEF)" "\<not> (0xF0 \<le> unat b0 \<and> unat b0 \<le> 0xF4)"
      by linarith
    then show ?thesis
    proof cases
      case a
      from dec have "map_option ((#) (unat b0)) (utf8_decode t) = Some cs"
        by (simp only: decode_1 [OF a])
      then obtain cs' where t: "utf8_decode t = Some cs'" and cs: "cs = unat b0 # cs'"
        by auto
      have "utf8_encode cs' = Some t" by (rule IH [OF _ t]) (simp add: Cons)
      from encode_step [OF encode_cp_1 [OF a] this] show ?thesis by (simp add: cs Cons)
    next
      case b
      from dec b obtain b1 r where t': "t = b1 # r" by (cases t) auto
      from dec b t' have c1: "is_cont b1" by (auto split: if_splits)
      have "utf8_decode (b0 # b1 # r)
          = map_option ((#) ((unat b0 - 0xC0) * 64 + cont_bits b1)) (utf8_decode r)"
        by (rule decode_2 [OF b c1])
      with dec have "map_option ((#) ((unat b0 - 0xC0) * 64 + cont_bits b1)) (utf8_decode r)
          = Some cs" by (simp only: t')
      then obtain cs' where r: "utf8_decode r = Some cs'"
        and cs: "cs = ((unat b0 - 0xC0) * 64 + cont_bits b1) # cs'"
        by auto
      have "utf8_encode cs' = Some r" by (rule IH [OF _ r]) (simp add: Cons t')
      from encode_step [OF encode_cp_2 [OF b c1] this] show ?thesis by (simp add: cs Cons t')
    next
      case c
      from dec c obtain b1 b2 r where t': "t = b1 # b2 # r"
        by (cases t; cases "tl t") auto
      define v where "v = (unat b0 - 0xE0) * 4096 + cont_bits b1 * 64 + cont_bits b2"
      from dec c t' have g: "is_cont b1" "is_cont b2" "0x800 \<le> v"
        "\<not> (0xD800 \<le> v \<and> v \<le> 0xDFFF)"
        by (auto simp: v_def split: if_splits)
      have "utf8_decode (b0 # b1 # b2 # r) = map_option ((#) v) (utf8_decode r)"
        by (rule decode_3 [OF c g(1,2) v_def g(3,4)])
      with dec have "map_option ((#) v) (utf8_decode r) = Some cs" by (simp only: t')
      then obtain cs' where r: "utf8_decode r = Some cs'" and cs: "cs = v # cs'"
        by auto
      have "utf8_encode cs' = Some r" by (rule IH [OF _ r]) (simp add: Cons t')
      from encode_step [OF encode_cp_3 [OF c g(1,2) v_def g(3,4)] this]
      show ?thesis by (simp add: cs Cons t')
    next
      case d
      from dec d obtain b1 b2 b3 r where t': "t = b1 # b2 # b3 # r"
        by (cases t; cases "tl t"; cases "tl (tl t)") auto
      define v where "v = (unat b0 - 0xF0) * 262144 + cont_bits b1 * 4096 + cont_bits b2 * 64
                + cont_bits b3"
      from dec d t' have g: "is_cont b1" "is_cont b2" "is_cont b3" "0x10000 \<le> v" "v \<le> 0x10FFFF"
        by (auto simp: v_def split: if_splits)
      have "utf8_decode (b0 # b1 # b2 # b3 # r) = map_option ((#) v) (utf8_decode r)"
        by (rule decode_4 [OF d g(1,2,3) v_def g(4,5)])
      with dec have "map_option ((#) v) (utf8_decode r) = Some cs" by (simp only: t')
      then obtain cs' where r: "utf8_decode r = Some cs'" and cs: "cs = v # cs'"
        by auto
      have "utf8_encode cs' = Some r" by (rule IH [OF _ r]) (simp add: Cons t')
      from encode_step [OF encode_cp_4 [OF d g(1,2,3) v_def g(4,5)] this]
      show ?thesis by (simp add: cs Cons t')
    next
      case e
      with dec show ?thesis by simp
    qed
  qed
qed

lemma universal_newlines_id: "13 \<notin> set t \<Longrightarrow> universal_newlines t = t"
  by (induction t rule: universal_newlines.induct) auto

lemma utf8_encode_cr:
  "utf8_encode t = Some bs \<Longrightarrow> 13 \<in> set t \<Longrightarrow> 0x0D \<in> set bs"
proof (induction t arbitrary: bs)
  case Nil
  then show ?case by simp
next
  case (Cons c cs)
  from Cons.prems(1) obtain b1 b2 where e: "utf8_encode_cp c = Some b1"
    and r: "utf8_encode cs = Some b2" and bs: "bs = b1 @ b2"
    by (auto split: option.splits)
  show ?case
  proof (cases "c = 13")
    case True
    with e have "b1 = [0x0D]" by (simp add: utf8_encode_cp_def)
    with bs show ?thesis by simp
  next
    case False
    with Cons.prems(2) have "13 \<in> set cs" by simp
    from Cons.IH [OF r this] bs show ?thesis by simp
  qed
qed

lemma latin1_cr: "13 \<in> set (latin1_decode bs) \<Longrightarrow> 0x0D \<in> set bs"
proof -
  assume "13 \<in> set (latin1_decode bs)"
  then obtain b where b: "b \<in> set bs" and u: "unat b = 13"
    by (auto simp: latin1_decode_def)
  have "b = of_nat (unat b)" by simp
  also have "\<dots> = 0x0D" by (simp only: u) simp
  finally show ?thesis using b by simp
qed

lemma latin1_inverse: "map of_nat (latin1_decode bs) = bs"
  by (simp add: latin1_decode_def comp_def)

lemma utf8_valid_iff: "(\<exists>t. utf8_encode t = Some bs) \<longleftrightarrow> (\<exists>t. utf8_decode bs = Some t)"
proof
  assume "\<exists>t. utf8_encode t = Some bs"
  then obtain t where "utf8_encode t = Some bs" ..
  then have "utf8_decode bs = Some t" by (rule decode_encode)
  then show "\<exists>t. utf8_decode bs = Some t" ..
next
  assume "\<exists>t. utf8_decode bs = Some t"
  then obtain t where "utf8_decode bs = Some t" ..
  then have "utf8_encode t = Some bs" by (rule encode_decode)
  then show "\<exists>t. utf8_encode t = Some bs" ..
qed

lemma safe_read_text_file:
  assumes "files w p = Some (File bs)"
  shows "safe_read_text w p
       = (Inr (universal_newlines (case utf8_decode bs of Some u \<Rightarrow> u
                                    | None \<Rightarrow> latin1_decode bs)), w)"
  using assms by (simp add: safe_read_text_def read_text_def decode_def split: option.splits)


lemma safe_read_text_utf8:
  assumes f: "files w p = Some (File bs)" and e: "utf8_encode t = Some bs"
  shows "safe_read_text w p = (Inr (universal_newlines t), w)"
proof -
  have "utf8_decode bs = Some t" using e by (rule decode_encode)
  then show ?thesis by (simp only: safe_read_text_file [OF f] option.case)
qed

lemma safe_read_text_latin1:
  assumes f: "files w p = Some (File bs)" and e: "\<forall>t. utf8_encode t \<noteq> Some bs"
  shows "safe_read_text w p = (Inr (universal_newlines (latin1_decode bs)), w)"
proof -
  have "utf8_decode bs = None"
  proof (cases "utf8_decode bs")
    case None
    then show ?thesis .
  next
    case (Some t)
    then have "utf8_encode t = Some bs" by (rule encode_decode)
    with e show ?thesis by blast
  qed
  then show ?thesis by (simp only: safe_read_text_file [OF f] option.case)
qed

section \<open>Properties of the state-passing functions\<close>

lemma warnings_append: "warnings (xs @ ys) = warnings xs @ warnings ys"
  by (induction xs rule: warnings.induct) simp_all

lemma errors_append: "errors (xs @ ys) = errors xs @ errors ys"
  by (induction xs rule: errors.induct) simp_all

lemma load_image_missing:
  assumes f: "files w p = None" and c: "no_cached_image w p"
  shows "\<exists>m w'. load_image pil_open w p = (None, w') \<and> ui w' = ui w @ [St_warning m]
           \<and> (image_cache w p = None \<longrightarrow> m = Image_not_found p)"
proof (cases "image_cache w p")
  case None
  then show ?thesis using f
    by (simp add: load_image_def load_image_body_def replay_def emit_def)
next
  case (Some e)
  with c obtain m where "e = Cached_failure m"
    by (cases e) (simp_all add: no_cached_image_def)
  with Some show ?thesis by (simp add: load_image_def replay_def emit_def)
qed

lemma cached_image_reachable:
  assumes "pil_open bs = Inr img" "files w p = Some (File bs)" "image_cache w p = None"
  shows "image_cache (snd (load_image pil_open w p)) p = Some (Cached_image img)"
  using assms by (simp add: load_image_def load_image_body_def replay_def)



section \<open>The claims about the extractor\<close>

text \<open>
  C1. The claim: when a label pattern matches but the captured text is not a valid
  floating-point number, the field is left out and nothing is raised. The code at such an
  input: the report sentence ends with a full stop, the group captures \<^verbatim>\<open>0.041.\<close>,
  \<^verbatim>\<open>float\<close> raises \<^verbatim>\<open>ValueError\<close>, and the whole extraction is abandoned with it.
\<close>
theorem malformed_number_raises:
  "search corr_pattern (''Correlation coefficient: 0.041.'' @ [newline] @ ''Elasticity: -0.40%'')
     = Some [''0.041.'']
   \<and> py_float ''0.041.'' = Inl ValueError
   \<and> extract_metrics (''Correlation coefficient: 0.041.'' @ [newline] @ ''Elasticity: -0.40%'')
     = Inl ValueError"
  by (simp add: extract_metrics_def step_defs pattern_defs float_defs class_defs newline_def)

text \<open>
  C2. On the report body of the end-to-end scenario the extractor returns the map with
  exactly the three entries correlation 0.041, elasticity -0.40 and wettest month May.
\<close>
theorem end_to_end_scenario:
  "extract_metrics (''Correlation coefficient: 0.041'' @ [newline] @ ''Elasticity: -0.40%''
                     @ [newline] @ ''Wettest month: May'' @ [newline])
     = Inr [''correlation'' \<mapsto> Float (41 / 1000), ''elasticity'' \<mapsto> Float (- (40 / 100)),
            ''wettest_month'' \<mapsto> Str ''May'']"
  by (simp add: extract_metrics_def step_defs pattern_defs float_defs class_defs newline_def)








section \<open>The claims about files and images\<close>

text \<open>
  C6 as stated: a file whose bytes are valid UTF-8 is read back as exactly the text those
  bytes encode. The bytes of \<^verbatim>\<open>a\r\nb\<close> are the UTF-8 encoding of that four-character
  text, and \<^verbatim>\<open>safe_read_text\<close> returns the three characters \<^verbatim>\<open>a\nb\<close>.
\<close>
theorem read_back_counterexample:
  "utf8_encode [97, 13, 10, 98] = Some [0x61, 0x0D, 0x0A, 0x62]
   \<and> fst (safe_read_text
            \<lparr>files = [''report.txt'' \<mapsto> File [0x61, 0x0D, 0x0A, 0x62]], ui = [],
             image_cache = Map.empty\<rparr> ''report.txt'')
       = Inr [97, 10, 98]"
proof -
  have e: "utf8_encode [97, 13, 10, 98] = Some [0x61, 0x0D, 0x0A, 0x62]"
    by (simp add: utf8_encode_cp_def)
  have f: "files \<lparr>files = [''report.txt'' \<mapsto> File [0x61, 0x0D, 0x0A, 0x62]], ui = [],
             image_cache = Map.empty\<rparr> ''report.txt'' = Some (File [0x61, 0x0D, 0x0A, 0x62])"
    by simp
  have "universal_newlines [97, 13, 10, 98] = [97, 10, 98]" by simp
  with safe_read_text_utf8 [OF f e] e show ?thesis by simp
qed

text \<open>
  C6, amended. For a file whose bytes are the UTF-8 encoding of a text,
  \<^verbatim>\<open>safe_read_text\<close> returns that text with every \<^verbatim>\<open>\r\n\<close> and lone \<^verbatim>\<open>\r\<close> turned into
  \<^verbatim>\<open>\n\<close>; it is exactly that text when the file holds no byte 0D. For a file whose bytes
  are not valid UTF-8 it returns the latin-1 decoding, one character per byte from which
  the bytes are recovered, with the same translation of line endings. In both cases
  nothing is raised and nothing is written to the page.
\<close>
theorem read_back_up_to_newlines:
  assumes f: "files w p = Some (File bs)"
  shows "(\<forall>t. utf8_encode t = Some bs \<longrightarrow>
            safe_read_text w p = (Inr (universal_newlines t), w)
          \<and> (0x0D \<notin> set bs \<longrightarrow> safe_read_text w p = (Inr t, w)))
       \<and> ((\<forall>t. utf8_encode t \<noteq> Some bs) \<longrightarrow>
            safe_read_text w p = (Inr (universal_newlines (latin1_decode bs)), w)
          \<and> map of_nat (latin1_decode bs) = bs
          \<and> (0x0D \<notin> set bs \<longrightarrow> safe_read_text w p = (Inr (latin1_decode bs), w)))"
proof (intro conjI allI impI)
  fix t assume e: "utf8_encode t = Some bs"
  show "safe_read_text w p = (Inr (universal_newlines t), w)"
    by (rule safe_read_text_utf8 [OF f e])
next
  fix t assume e: "utf8_encode t = Some bs" and n: "0x0D \<notin> set bs"
  from utf8_encode_cr [OF e] n have "13 \<notin> set t" by blast
  then have "universal_newlines t = t" by (rule universal_newlines_id)
  with safe_read_text_utf8 [OF f e] show "safe_read_text w p = (Inr t, w)" by simp
next
  assume e: "\<forall>t. utf8_encode t \<noteq> Some bs"
  show "safe_read_text w p = (Inr (universal_newlines (latin1_decode bs)), w)"
    by (rule safe_read_text_latin1 [OF f e])
next
  show "map of_nat (latin1_decode bs) = bs" by (rule latin1_inverse)
next
  assume e: "\<forall>t. utf8_encode t \<noteq> Some bs" and n: "0x0D \<notin> set bs"
  from latin1_cr n have "13 \<notin> set (latin1_decode bs)" by blast
  then have "universal_newlines (latin1_decode bs) = latin1_decode bs"
    by (rule universal_newlines_id)
  with safe_read_text_latin1 [OF f e]
  show "safe_read_text w p = (Inr (latin1_decode bs), w)" by simp
qed

text \<open>The theorem at a UTF-8 file and at a file that is not valid UTF-8.\<close>

theorem read_back_up_to_newlines_witness:
  "files \<lparr>files = [''report.txt'' \<mapsto> File [0xC3, 0xA9, 0x0A]], ui = [], image_cache = Map.empty\<rparr>
       ''report.txt'' = Some (File [0xC3, 0xA9, 0x0A])
   \<and> utf8_encode [233, 10] = Some [0xC3, 0xA9, 0x0A]
   \<and> 0x0D \<notin> set [0xC3, 0xA9, 0x0A :: byte]
   \<and> safe_read_text
         \<lparr>files = [''report.txt'' \<mapsto> File [0xC3, 0xA9, 0x0A]], ui = [], image_cache = Map.empty\<rparr>
         ''report.txt''
       = (Inr [233, 10],
          \<lparr>files = [''report.txt'' \<mapsto> File [0xC3, 0xA9, 0x0A]], ui = [], image_cache = Map.empty\<rparr>)
   \<and> files \<lparr>files = [''report.txt'' \<mapsto> File [0xE9, 0x0A]], ui = [], image_cache = Map.empty\<rparr>
       ''report.txt'' = Some (File [0xE9, 0x0A])
   \<and> (\<forall>t. utf8_encode t \<noteq> Some [0xE9, 0x0A])
   \<and> 0x0D \<notin> set [0xE9, 0x0A :: byte]
   \<and> safe_read_text
         \<lparr>files = [''report.txt'' \<mapsto> File [0xE9, 0x0A]], ui = [], image_cache = Map.empty\<rparr>
         ''report.txt''
       = (Inr (latin1_decode [0xE9, 0x0A]),
          \<lparr>files = [''report.txt'' \<mapsto> File [0xE9, 0x0A]], ui = [], image_cache = Map.empty\<rparr>)"
proof -
  let ?w1 = "\<lparr>files = [''report.txt'' \<mapsto> File [0xC3, 0xA9, 0x0A]], ui = [],
              image_cache = Map.empty\<rparr>"
  let ?w2 = "\<lparr>files = [''report.txt'' \<mapsto> File [0xE9, 0x0A]], ui = [], image_cache = Map.empty\<rparr>"
  have f1: "files ?w1 ''report.txt'' = Some (File [0xC3, 0xA9, 0x0A])" by simp
  have e1: "utf8_encode [233, 10] = Some [0xC3, 0xA9, 0x0A]"
    by (simp add: utf8_encode_cp_def)
  have n1: "0x0D \<notin> set [0xC3, 0xA9, 0x0A :: byte]" by simp
  have f2: "files ?w2 ''report.txt'' = Some (File [0xE9, 0x0A])" by simp
  have d2: "utf8_decode [0xE9, 0x0A] = None" by (simp add: is_cont_def)
  have e2: "\<forall>t. utf8_encode t \<noteq> Some [0xE9, 0x0A]"
  proof (intro allI notI)
    fix t assume "utf8_encode t = Some [0xE9, 0x0A]"
    then have "utf8_decode [0xE9, 0x0A] = Some t" by (rule decode_encode)
    with d2 show False by simp
  qed
  have n2: "0x0D \<notin> set [0xE9, 0x0A :: byte]" by simp
  note a = read_back_up_to_newlines [OF f1, THEN conjunct1, THEN spec, THEN mp, OF e1,
      THEN conjunct2, THEN mp, OF n1]
  note b = read_back_up_to_newlines [OF f2, THEN conjunct2, THEN mp, OF e2,
      THEN conjunct2, THEN conjunct2, THEN mp, OF n2]
  show ?thesis
    by (intro conjI) (rule f1, rule e1, rule n1, rule a, rule f2, rule e2, rule n2, rule b)
qed

text \<open>
  C7 as stated: for every path that does not exist, \<^verbatim>\<open>display_plot\<close> reports the image
  as not found and writes exactly one warning. When the cache of \<^verbatim>\<open>load_image\<close> holds
  an image for the path, loaded while the file existed, the cached image is shown,
  \<^verbatim>\<open>display_plot\<close> returns \<^verbatim>\<open>True\<close> and no warning is written.
\<close>
theorem stale_cached_image_counterexample:
  "files \<lparr>files = Map.empty, ui = [],
          image_cache = [''plot.png'' \<mapsto> Cached_image (PIL_image [])]\<rparr> ''plot.png'' = None
   \<and> fst (display_plot unrecognised
            \<lparr>files = Map.empty, ui = [],
             image_cache = [''plot.png'' \<mapsto> Cached_image (PIL_image [])]\<rparr>
            ''plot.png'' ''Rain'' []) = True
   \<and> warnings (ui (snd (display_plot unrecognised
            \<lparr>files = Map.empty, ui = [],
             image_cache = [''plot.png'' \<mapsto> Cached_image (PIL_image [])]\<rparr>
            ''plot.png'' ''Rain'' []))) = []"
  by (simp add: display_plot_def load_image_def replay_def emit_def)

text \<open>
  C7, amended. For every path that does not exist and for which the cache of
  \<^verbatim>\<open>load_image\<close> holds no image, \<^verbatim>\<open>load_image\<close> returns \<^verbatim>\<open>None\<close>,
  \<^verbatim>\<open>display_plot\<close> returns \<^verbatim>\<open>False\<close>, exactly one warning is written (the
  not-found warning when the path was never loaded before) together with the one error
  notice of \<^verbatim>\<open>display_plot\<close>, and nothing is raised.
\<close>
theorem missing_image_one_warning:
  assumes f: "files w p = None" and c: "no_cached_image w p"
  shows "fst (load_image pil_open w p) = None
       \<and> fst (display_plot pil_open w p title description) = False
       \<and> length (warnings (ui (snd (display_plot pil_open w p title description))))
           = length (warnings (ui w)) + 1
       \<and> errors (ui (snd (display_plot pil_open w p title description)))
           = errors (ui w) @ [Could_not_load title]
       \<and> (image_cache w p = None \<longrightarrow>
            warnings (ui (snd (display_plot pil_open w p title description)))
              = warnings (ui w) @ [Image_not_found p])"
proof -
  define w2 where "w2 = (if description \<noteq> [] then emit (Markdown_description description)
                            (emit (Markdown_title title) w) else emit (Markdown_title title) w)"
  have f2: "files w2 p = None" and c2: "no_cached_image w2 p"
    and i2: "image_cache w2 p = image_cache w p"
    using f c by (simp_all add: w2_def emit_def no_cached_image_def)
  have u2: "warnings (ui w2) = warnings (ui w)" "errors (ui w2) = errors (ui w)"
    by (simp_all add: w2_def emit_def warnings_append errors_append)
  from load_image_missing [OF f c, of pil_open]
  have a: "fst (load_image pil_open w p) = None" by auto
  from load_image_missing [OF f2 c2, of pil_open] obtain m w3
    where l: "load_image pil_open w2 p = (None, w3)" and u3: "ui w3 = ui w2 @ [St_warning m]"
      and m: "image_cache w2 p = None \<longrightarrow> m = Image_not_found p"
    by (elim exE conjE)
  have d: "display_plot pil_open w p title description
             = (False, emit (St_error (Could_not_load title)) w3)"
    using l by (simp add: display_plot_def Let_def w2_def)
  have uw: "ui (emit (St_error (Could_not_load title)) w3)
              = ui w2 @ [St_warning m, St_error (Could_not_load title)]"
    by (simp add: emit_def u3)
  have wn: "warnings (ui (emit (St_error (Could_not_load title)) w3)) = warnings (ui w) @ [m]"
    by (simp add: uw warnings_append u2)
  have er: "errors (ui (emit (St_error (Could_not_load title)) w3))
              = errors (ui w) @ [Could_not_load title]"
    by (simp add: uw errors_append u2)
  show ?thesis
  proof (intro conjI impI)
    show "fst (load_image pil_open w p) = None" by (rule a)
    show "fst (display_plot pil_open w p title description) = False" by (simp only: d fst_conv)
    show "length (warnings (ui (snd (display_plot pil_open w p title description))))
           = length (warnings (ui w)) + 1" by (simp only: d snd_conv wn) simp
    show "errors (ui (snd (display_plot pil_open w p title description)))
           = errors (ui w) @ [Could_not_load title]" by (simp only: d snd_conv er)
  next
    assume "image_cache w p = None"
    with m i2 have "m = Image_not_found p" by simp
    then show "warnings (ui (snd (display_plot pil_open w p title description)))
              = warnings (ui w) @ [Image_not_found p]" by (simp only: d snd_conv wn)
  qed
qed

text \<open>The theorem on an empty file system with an empty cache.\<close>

theorem missing_image_one_warning_witness:
  "files \<lparr>files = Map.empty, ui = [], image_cache = Map.empty\<rparr> ''plot.png'' = None
   \<and> no_cached_image \<lparr>files = Map.empty, ui = [], image_cache = Map.empty\<rparr> ''plot.png''
   \<and> fst (display_plot unrecognised \<lparr>files = Map.empty, ui = [], image_cache = Map.empty\<rparr>
            ''plot.png'' ''Rain'' ''mm'') = False
   \<and> warnings (ui (snd (display_plot unrecognised
        \<lparr>files = Map.empty, ui = [], image_cache = Map.empty\<rparr> ''plot.png'' ''Rain'' ''mm'')))
       = [Image_not_found ''plot.png'']"
proof -
  let ?w = "\<lparr>files = Map.empty, ui = [], image_cache = Map.empty\<rparr>"
  have f: "files ?w ''plot.png'' = None" by simp
  have c: "no_cached_image ?w ''plot.png''" by (simp add: no_cached_image_def)
  have i: "image_cache ?w ''plot.png'' = None" by simp
  note t = missing_image_one_warning [OF f c, of unrecognised "''Rain''" "''mm''"]
  have b: "warnings (ui (snd (display_plot unrecognised ?w ''plot.png'' ''Rain'' ''mm'')))
       = [Image_not_found ''plot.png'']"
    using t [THEN conjunct2, THEN conjunct2, THEN conjunct2, THEN conjunct2, THEN mp, OF i]
    by simp
  show ?thesis
    by (intro conjI) (rule f, rule c, rule t [THEN conjunct2, THEN conjunct1], rule b)
qed



text \<open>
  C9. For a path with no file, \<^verbatim>\<open>safe_read_text\<close> raises the error of the first
  \<^verbatim>\<open>open\<close>, \<^verbatim>\<open>FileNotFoundError\<close>; it neither returns the empty string nor writes a
  warning.
\<close>
theorem missing_file_raises:
  assumes "files w p = None"
  shows "safe_read_text w p = (Inl FileNotFoundError, w)"
  using assms by (simp add: safe_read_text_def read_text_def)

text \<open>The theorem on an empty file system.\<close>

theorem missing_file_raises_witness:
  "files \<lparr>files = Map.empty, ui = [], image_cache = Map.empty\<rparr> ''report.txt'' = None
   \<and> safe_read_text \<lparr>files = Map.empty, ui = [], image_cache = Map.empty\<rparr> ''report.txt''
       = (Inl FileNotFoundError, \<lparr>files = Map.empty, ui = [], image_cache = Map.empty\<rparr>)"
proof -
  have f: "files \<lparr>files = Map.empty, ui = [], image_cache = Map.empty\<rparr> ''report.txt'' = None"
    by simp
  show ?thesis by (intro conjI) (rule f, rule missing_file_raises [OF f])
qed

text \<open>
  C10. For an existing readable file \<^verbatim>\<open>safe_read_text\<close> returns the decoded content,
  under UTF-8 or else under latin-1, and the page is left as it was: the branch that
  warns and returns the empty string is not taken, because the latin-1 decoding exists for
  every byte sequence and the second read succeeds.
\<close>
theorem readable_file_never_gives_up:
  assumes f: "files w p = Some (File bs)"
  shows "safe_read_text w p
           = (Inr (universal_newlines (case utf8_decode bs of Some u \<Rightarrow> u
                                        | None \<Rightarrow> latin1_decode bs)), w)
       \<and> ui (snd (safe_read_text w p)) = ui w
       \<and> decode Latin1 bs = Some (latin1_decode bs)
       \<and> read_text (files w) p Latin1 = Inr (universal_newlines (latin1_decode bs))"
proof (intro conjI)
  show r: "safe_read_text w p
           = (Inr (universal_newlines (case utf8_decode bs of Some u \<Rightarrow> u
                                        | None \<Rightarrow> latin1_decode bs)), w)"
    by (rule safe_read_text_file [OF f])
  show "ui (snd (safe_read_text w p)) = ui w" by (simp only: r snd_conv)
  show "decode Latin1 bs = Some (latin1_decode bs)" by (simp add: decode_def)
  show "read_text (files w) p Latin1 = Inr (universal_newlines (latin1_decode bs))"
    using f by (simp add: read_text_def decode_def)
qed

text \<open>The theorem at a file that is not valid UTF-8.\<close>

theorem readable_file_never_gives_up_witness:
  "files \<lparr>files = [''report.txt'' \<mapsto> File [0xE9, 0x0A]], ui = [], image_cache = Map.empty\<rparr>
       ''report.txt'' = Some (File [0xE9, 0x0A])
   \<and> fst (safe_read_text
         \<lparr>files = [''report.txt'' \<mapsto> File [0xE9, 0x0A]], ui = [], image_cache = Map.empty\<rparr>
         ''report.txt'') = Inr [233, 10]
   \<and> ui (snd (safe_read_text
         \<lparr>files = [''report.txt'' \<mapsto> File [0xE9, 0x0A]], ui = [], image_cache = Map.empty\<rparr>
         ''report.txt'')) = []"
proof -
  let ?w = "\<lparr>files = [''report.txt'' \<mapsto> File [0xE9, 0x0A]], ui = [], image_cache = Map.empty\<rparr>"
  have f: "files ?w ''report.txt'' = Some (File [0xE9, 0x0A])" by simp
  have d: "utf8_decode [0xE9, 0x0A] = None" by (simp add: is_cont_def)
  have l: "universal_newlines (latin1_decode [0xE9, 0x0A]) = [233, 10]"
    by (simp add: latin1_decode_def)
  note w = readable_file_never_gives_up [OF f]
  have a: "fst (safe_read_text ?w ''report.txt'') = Inr [233, 10]"
    by (simp only: w [THEN conjunct1] d l option.case fst_conv)
  have b: "ui (snd (safe_read_text ?w ''report.txt'')) = []"
    using w [THEN conjunct2, THEN conjunct1] by simp
  show ?thesis by (intro conjI) (rule f, rule a, rule b)
qed

end
